theory Spec2Isabelle
  imports Complex_Main "HOL-Library.Sublist" "HOL-Library.Product_Lexorder"
begin

section \<open>Exceptions\<close>

text \<open>
  A Python exception is carried as a value: the name of its class
  (\<open>type(e).__name__\<close>) and its text (\<open>str(e)\<close>). Only subclasses of
  \<open>Exception\<close> are modelled, which is what \<open>except Exception\<close> catches.
\<close>

datatype exn = Exn (exn_type: string) (exn_text: string)

definition ValueError :: "string \<Rightarrow> exn" where
  "ValueError msg = Exn ''ValueError'' msg"

section \<open>Dates\<close>

text \<open>
  A \<open>datetime\<close> value. Every datetime of the program is in UTC (\<open>parse_month\<close>
  attaches \<open>timezone.utc\<close>, and \<open>replace\<close> keeps it), so the zone is not a
  field and comparing two values compares their fields from the year down.
\<close>

record datetime =
  year :: nat
  month :: nat
  day :: nat
  hour :: nat
  minute :: nat
  second :: nat
  microsecond :: nat

definition MAXYEAR :: nat where
  "MAXYEAR = 9999"

definition isleap :: "nat \<Rightarrow> bool" where
  "isleap y = (y mod 4 = 0 \<and> (y mod 100 \<noteq> 0 \<or> y mod 400 = 0))"

definition mdays :: "nat list" where
  "mdays = [0, 31, 28, 31, 30, 31, 30, 31, 31, 30, 31, 30, 31]"

text \<open>
  \<open>calendar.monthrange(year, month)[1]\<close>: the table entry, plus one for a leap
  February; \<open>IllegalMonthError\<close> for a month outside 1..12.
\<close>

definition monthrange_days :: "nat \<Rightarrow> nat \<Rightarrow> exn + nat" where
  "monthrange_days y m =
     (if \<not> (1 \<le> m \<and> m \<le> 12) then Inl (Exn ''IllegalMonthError'' ''bad month number'')
      else Inr (mdays ! m + (if m = 2 \<and> isleap y then 1 else 0)))"


text \<open>Comparison of two UTC datetimes: lexicographic on the fields.\<close>

definition dt_key :: "datetime \<Rightarrow> nat \<times> nat \<times> nat \<times> nat \<times> nat \<times> nat \<times> nat" where
  "dt_key t = (year t, month t, day t, hour t, minute t, second t, microsecond t)"

definition dt_le :: "datetime \<Rightarrow> datetime \<Rightarrow> bool" where
  "dt_le a b = (dt_key a \<le> dt_key b)"

definition dt_less :: "datetime \<Rightarrow> datetime \<Rightarrow> bool" where
  "dt_less a b = (dt_key a < dt_key b)"

section \<open>Decimal output and input\<close>

definition digit :: "nat \<Rightarrow> char" where
  "digit d = char_of (48 + d)"

fun dec :: "nat \<Rightarrow> string" where
  "dec n = (if n < 10 then [digit n] else dec (n div 10) @ [digit (n mod 10)])"

declare dec.simps [simp del]

text \<open>A number printed in at least \<open>w\<close> columns, filled with zeros on the left.\<close>

definition zpad :: "nat \<Rightarrow> nat \<Rightarrow> string" where
  "zpad w n = replicate (w - length (dec n)) CHR ''0'' @ dec n"

text \<open>
  \<open>ts.strftime("%Y%m%d_%H%M%S")\<close>. CPython hands the format to the C library:
  \<open>%m\<close>, \<open>%d\<close>, \<open>%H\<close>, \<open>%M\<close> and \<open>%S\<close> fill two columns with zeros;
  \<open>%Y\<close> is the year as a decimal number, which the C library of Linux does not
  fill, so that a year below 1000 prints with fewer than four digits.
\<close>

definition strftime_Ymd_HMS :: "datetime \<Rightarrow> string" where
  "strftime_Ymd_HMS t =
     dec (year t) @ zpad 2 (month t) @ zpad 2 (day t) @ ''_'' @
     zpad 2 (hour t) @ zpad 2 (minute t) @ zpad 2 (second t)"

text \<open>\<open>month_dt.strftime("%Y-%m")\<close>, the month tag of the output directory.\<close>

definition strftime_Ym :: "datetime \<Rightarrow> string" where
  "strftime_Ym t = dec (year t) @ ''-'' @ zpad 2 (month t)"

definition is_digit :: "char \<Rightarrow> bool" where
  "is_digit c = (48 \<le> (of_char c :: nat) \<and> (of_char c :: nat) \<le> 57)"

definition digit_val :: "char \<Rightarrow> nat" where
  "digit_val c = of_char c - 48"

text \<open>
  The month field of \<open>strptime\<close>'s \<open>%m\<close>, whose pattern is
  \<open>1[0-2]|0[1-9]|[1-9]\<close>.
\<close>

fun parse_m :: "string \<Rightarrow> nat option" where
  "parse_m [a] = (if is_digit a \<and> digit_val a \<noteq> 0 then Some (digit_val a) else None)"
| "parse_m [a, b] =
     (if a = CHR ''1'' \<and> is_digit b \<and> digit_val b \<le> 2 then Some (10 + digit_val b)
      else if a = CHR ''0'' \<and> is_digit b \<and> digit_val b \<noteq> 0 then Some (digit_val b)
      else None)"
| "parse_m s = None"

text \<open>
  \<open>parse_month\<close>: \<open>datetime.strptime(month_str, "%Y-%m").replace(tzinfo=utc)\<close>.
  The whole string must be four digits, a dash and a month; the missing fields
  default to day 1 at midnight. A string of another shape, and the year 0, raise
  \<open>ValueError\<close>.
\<close>

definition ym :: "nat \<Rightarrow> nat \<Rightarrow> datetime" where
  "ym y m = \<lparr>year = y, month = m, day = 1, hour = 0, minute = 0, second = 0, microsecond = 0\<rparr>"

fun parse_month :: "string \<Rightarrow> exn + datetime" where
  "parse_month (a # b # c # d # e # ms) =
     (if is_digit a \<and> is_digit b \<and> is_digit c \<and> is_digit d \<and> e = CHR ''-'' then
        (case parse_m ms of
           None \<Rightarrow> Inl (ValueError ''time data does not match format'')
         | Some m \<Rightarrow>
             (let y = 1000 * digit_val a + 100 * digit_val b + 10 * digit_val c + digit_val d
              in if y < 1 then Inl (ValueError ''year 0 is out of range'') else Inr (ym y m)))
      else Inl (ValueError ''time data does not match format''))"
| "parse_month s = Inl (ValueError ''time data does not match format'')"

section \<open>Month Range Planner\<close>

text \<open>
  \<open>cur += relativedelta(months=1)\<close>: the month goes up by one and wraps into the
  next year; the day is cut to the length of the new month; \<open>replace\<close> raises
  \<open>ValueError\<close> when the year passes \<open>MAXYEAR\<close>.
\<close>

definition add_one_month :: "datetime \<Rightarrow> exn + datetime" where
  "add_one_month dt =
     (let m1 = month dt + 1;
          y = (if m1 > 12 then year dt + 1 else year dt);
          m = (if m1 > 12 then m1 - 12 else m1)
      in case monthrange_days y m of
           Inl e \<Rightarrow> Inl e
         | Inr n \<Rightarrow>
             if y > MAXYEAR then Inl (ValueError (''year '' @ dec y @ '' is out of range''))
             else Inr (dt\<lparr>year := y, month := m, day := min n (day dt)\<rparr>))"

text \<open>
  The \<open>while\<close> loop of the generator \<open>month_range\<close>. The result is the list of
  the values it yields, and the exception that ends the iteration if one does
  (\<open>None\<close> when the generator is exhausted normally).
\<close>

function month_range_loop :: "datetime \<Rightarrow> datetime \<Rightarrow> datetime list \<times> exn option" where
  "month_range_loop cur end_norm =
     (if dt_le cur end_norm then
        (case add_one_month cur of
           Inl e \<Rightarrow> ([cur], Some e)
         | Inr nxt \<Rightarrow> (let (ys, r) = month_range_loop nxt end_norm in (cur # ys, r)))
      else ([], None))"
  by pat_completeness auto

lemma add_one_month_Inr:
  "add_one_month c = Inr n \<Longrightarrow>
     (year n = year c + 1 \<and> 12 \<le> month c) \<or>
     (year n = year c \<and> month n = month c + 1 \<and> month c < 12)"
  by (auto simp: add_one_month_def Let_def monthrange_days_def split: if_splits sum.splits)

lemma dt_le_year: "dt_le a b \<Longrightarrow> year a \<le> year b"
  by (auto simp: dt_le_def dt_key_def)

termination month_range_loop
proof (relation "measures [\<lambda>(cur, e). year e + 1 - year cur, \<lambda>(cur, e). 13 - month cur]")
  fix cur end_norm nxt
  assume le: "dt_le cur end_norm" and a: "add_one_month cur = Inr nxt"
  from dt_le_year [OF le] add_one_month_Inr [OF a]
  show "((nxt, end_norm), (cur, end_norm))
          \<in> measures [\<lambda>(cur, e). year e + 1 - year cur, \<lambda>(cur, e). 13 - month cur]"
    by auto
qed simp

declare month_range_loop.simps [simp del]

definition month_range :: "datetime \<Rightarrow> datetime \<Rightarrow> datetime list \<times> exn option" where
  "month_range start_month_dt end_month_dt =
     (let cur = start_month_dt\<lparr>day := 1\<rparr>;
          end_norm = end_month_dt\<lparr>day := 1\<rparr>
      in month_range_loop cur end_norm)"

definition month_bounds :: "datetime \<Rightarrow> exn + datetime \<times> datetime" where
  "month_bounds month_dt =
     (let first = month_dt\<lparr>day := 1, hour := 0, minute := 0, second := 0, microsecond := 0\<rparr>
      in case monthrange_days (year first) (month first) of
           Inl e \<Rightarrow> Inl e
         | Inr last_day \<Rightarrow>
             (let last = first\<lparr>day := last_day, hour := 23, minute := 59, second := 59\<rparr>
              in Inr (first, last)))"

section \<open>Strings\<close>

text \<open>
  A Python \<open>str\<close> is a \<open>string\<close>: its characters are the code points below
  256 (ASCII and Latin-1). White space and upper case are what \<open>str.isspace\<close>
  and \<open>str.lower\<close> make of these code points.
\<close>

definition reserved :: string where
  "reserved = [CHR ''<'', CHR ''>'', CHR '':'', CHR 0x22, CHR ''/'', CHR 0x5C,
               CHR ''|'', CHR ''?'', CHR ''*'']"

definition is_space :: "char \<Rightarrow> bool" where
  "is_space c = (c \<in> set [CHR 0x09, CHR 0x0A, CHR 0x0B, CHR 0x0C, CHR 0x0D,
                           CHR 0x1C, CHR 0x1D, CHR 0x1E, CHR 0x1F, CHR 0x20,
                           CHR 0x85, CHR 0xA0])"

text \<open>\<open>s.strip()\<close>\<close>

definition strip :: "string \<Rightarrow> string" where
  "strip s = rev (dropWhile is_space (rev (dropWhile is_space s)))"

text \<open>
  The upper-case letters below 256 are \<open>A\<close> to \<open>Z\<close> (65 to 90) and the
  Latin-1 capitals 192 to 222 without the multiplication sign 215; the lower-case
  letter is 32 further in each case.
\<close>

definition is_upper :: "char \<Rightarrow> bool" where
  "is_upper c =
     ((65 \<le> (of_char c :: nat) \<and> (of_char c :: nat) \<le> 90) \<or>
      (192 \<le> (of_char c :: nat) \<and> (of_char c :: nat) \<le> 222 \<and> (of_char c :: nat) \<noteq> 215))"

definition lower_char :: "char \<Rightarrow> char" where
  "lower_char c = (if is_upper c then char_of ((of_char c :: nat) + 32) else c)"

text \<open>\<open>s.lower()\<close>\<close>

definition lower :: "string \<Rightarrow> string" where
  "lower s = map lower_char s"

text \<open>\<open>s.split(sep)\<close> for a separator of one character: never an empty list.\<close>

fun split :: "char \<Rightarrow> string \<Rightarrow> string list" where
  "split sep [] = [[]]"
| "split sep (c # cs) =
     (if c = sep then [] # split sep cs
      else (case split sep cs of
              [] \<Rightarrow> [[c]]
            | w # ws \<Rightarrow> (c # w) # ws))"

text \<open>\<open>x or d\<close> on an attribute that is a string or \<open>None\<close>.\<close>

definition or_else :: "string option \<Rightarrow> string \<Rightarrow> string" where
  "or_else x d = (case x of None \<Rightarrow> d | Some s \<Rightarrow> if s = [] then d else s)"

section \<open>Assets\<close>

text \<open>
  What the service answers to one call of \<open>asset.download()\<close>: a
  \<open>requests.Response\<close>, whose \<open>iter_content\<close> gives the chunks and may then
  raise, or a buffer of bytes.
\<close>

datatype response = Response "string list" "exn option" | Bytes string

text \<open>
  An asset of the photo library. The field \<open>download\<close> is the download
  capability: the outcome of the call, given how many downloads the program has
  made before it.
\<close>

record asset =
  asset_id :: string
  filename :: "string option"
  item_type :: string
  created :: "datetime option"
  download :: "nat \<Rightarrow> exn + response"

definition safe_filename :: "string \<Rightarrow> string" where
  "safe_filename name = strip (filter (\<lambda>c. c \<notin> set reserved) name)"

definition asset_timestamp :: "asset \<Rightarrow> datetime option" where
  "asset_timestamp asset = (case created asset of Some dt \<Rightarrow> Some dt | None \<Rightarrow> None)"

definition is_in_month :: "asset \<Rightarrow> datetime \<Rightarrow> datetime \<Rightarrow> bool" where
  "is_in_month asset start_dt end_dt =
     (case asset_timestamp asset of
        None \<Rightarrow> False
      | Some ts \<Rightarrow> dt_le start_dt ts \<and> dt_le ts end_dt)"

definition file_ext :: "asset \<Rightarrow> string" where
  "file_ext asset =
     (let name = lower (or_else (filename asset) [])
      in if CHR ''.'' \<in> set name then ''.'' @ last (split CHR ''.'' name)
         else if item_type asset = ''video'' then ''.mov''
         else ''.jpg'')"

text \<open>
  \<open>build_filename\<close>, in two steps: the value of its local \<open>base\<close>, and the
  sanitized name it returns.
\<close>

definition base_name :: "asset \<Rightarrow> string" where
  "base_name asset =
     (let ts = asset_timestamp asset;
          base_time = (case ts of Some t \<Rightarrow> strftime_Ymd_HMS t | None \<Rightarrow> ''unknown'')
      in base_time @ ''_'' @ or_else (filename asset) (asset_id asset))"

definition build_filename :: "asset \<Rightarrow> string" where
  "build_filename asset = (let base = base_name asset in safe_filename base)"

text \<open>The list comprehension of \<open>main\<close> that selects the assets of one month.\<close>

definition matched :: "asset list \<Rightarrow> datetime \<Rightarrow> datetime \<Rightarrow> asset list" where
  "matched photos mstart mend = filter (\<lambda>a. is_in_month a mstart mend) photos"

section \<open>Downloader\<close>

text \<open>
  The part of the world \<open>download_asset\<close> acts on: the regular files and their
  contents; what \<open>open(path, "wb")\<close> raises for a path, if anything (a missing
  directory, a refused permission); the number of calls of the download capability
  made so far; and the trace of what the program did to the network and the clock,
  oldest first: each call of the download capability and each call of
  \<open>time.sleep\<close> with its argument, in the order they happened.
\<close>

datatype event = Download_call | Sleep rat

record world =
  fs :: "string \<rightharpoonup> string"
  open_error :: "string \<Rightarrow> exn option"
  calls :: nat
  trace :: "event list"

text \<open>\<open>os.path.join\<close> of POSIX, for two components.\<close>

definition path_join :: "string \<Rightarrow> string \<Rightarrow> string" where
  "path_join a b =
     (if b \<noteq> [] \<and> hd b = CHR ''/'' then b
      else if a = [] \<or> last a = CHR ''/'' then a @ b
      else a @ ''/'' @ b)"

definition path_exists :: "world \<Rightarrow> string \<Rightarrow> bool" where
  "path_exists w p = (fs w p \<noteq> None)"

text \<open>
  \<open>os.path.getsize\<close>. It raises for a path that does not exist; the program
  calls it behind \<open>os.path.exists(p) and\<close> only, so that case is never
  evaluated, and it reads as size 0 here.
\<close>

definition getsize :: "world \<Rightarrow> string \<Rightarrow> nat" where
  "getsize w p = (case fs w p of None \<Rightarrow> 0 | Some b \<Rightarrow> length b)"

text \<open>The loop over \<open>iter_content\<close>: an empty chunk is not written.\<close>

fun write_chunks :: "string list \<Rightarrow> string \<Rightarrow> string" where
  "write_chunks [] f = f"
| "write_chunks (chunk # cs) f = write_chunks cs (if chunk \<noteq> [] then f @ chunk else f)"

text \<open>
  \<open>save_stream_to_file\<close>. Opening the file for writing empties it; the
  \<open>with\<close> block closes it on every exit, so the bytes written before an
  exception stay in the file.
\<close>

definition save_stream_to_file :: "response \<Rightarrow> string \<Rightarrow> world \<Rightarrow> (exn + unit) \<times> world" where
  "save_stream_to_file resp target_path w =
     (case resp of
        Response chunks err \<Rightarrow>
          (case open_error w target_path of
             Some e \<Rightarrow> (Inl e, w)
           | None \<Rightarrow>
               (let w' = w\<lparr>fs := (fs w)(target_path \<mapsto> write_chunks chunks [])\<rparr>
                in case err of Some e \<Rightarrow> (Inl e, w') | None \<Rightarrow> (Inr (), w')))
      | Bytes b \<Rightarrow>
          (case open_error w target_path of
             Some e \<Rightarrow> (Inl e, w)
           | None \<Rightarrow> (Inr (), w\<lparr>fs := (fs w)(target_path \<mapsto> b)\<rparr>)))"

text \<open>The body of the \<open>try\<close>: one download and the saving of its answer.\<close>

definition try_download :: "asset \<Rightarrow> string \<Rightarrow> world \<Rightarrow> (exn + unit) \<times> world" where
  "try_download asset target_path w =
     (let w1 = w\<lparr>calls := calls w + 1, trace := trace w @ [Download_call]\<rparr>
      in case download asset (calls w) of
           Inl e \<Rightarrow> (Inl e, w1)
         | Inr resp \<Rightarrow> save_stream_to_file resp target_path w1)"

text \<open>\<open>time.sleep(secs)\<close>\<close>

definition sleep :: "rat \<Rightarrow> world \<Rightarrow> world" where
  "sleep secs w = w\<lparr>trace := trace w @ [Sleep secs]\<rparr>"

text \<open>\<open>f"{type(last_err).__name__}: {last_err}"\<close>, also for \<open>last_err = None\<close>.\<close>

definition format_err :: "exn option \<Rightarrow> string" where
  "format_err last_err =
     (case last_err of
        None \<Rightarrow> ''NoneType'' @ '': '' @ ''None''
      | Some e \<Rightarrow> exn_type e @ '': '' @ exn_text e)"

function download_loop ::
  "asset \<Rightarrow> string \<Rightarrow> int \<Rightarrow> int \<Rightarrow> exn option \<Rightarrow> world \<Rightarrow> (string option \<times> string) \<times> world" where
  "download_loop asset target_path max_retries attempt last_err w =
     (if attempt < max_retries then
        (case try_download asset target_path w of
           (Inr u, w') \<Rightarrow> ((Some target_path, ''ok''), w')
         | (Inl e, w') \<Rightarrow>
             download_loop asset target_path max_retries (attempt + 1) (Some e)
               (sleep (3 / 2 * of_int (attempt + 1)) w'))
      else ((Some (format_err last_err), ''error''), w))"
  by pat_completeness auto
termination
  by (relation "measure (\<lambda>(a, p, n, k, e, w). nat (n - k))") auto

declare download_loop.simps [simp del]

definition download_asset ::
  "bool \<Rightarrow> asset \<Rightarrow> string \<Rightarrow> int \<Rightarrow> world \<Rightarrow> (string option \<times> string) \<times> world" where
  "download_asset SKIP_VIDEOS asset out_dir max_retries w =
     (if SKIP_VIDEOS \<and> item_type asset = ''video'' then ((None, ''skipped_video''), w)
      else
        (let target_name = build_filename asset @ file_ext asset;
             target_path = path_join out_dir target_name
         in if path_exists w target_path \<and> getsize w target_path > 0
            then ((Some target_path, ''skip''), w)
            else download_loop asset target_path max_retries 0 None w))"

section \<open>The terms of the specification\<close>

text \<open>The path \<open>download_asset\<close> computes for an asset and an output directory.\<close>

definition target_path :: "asset \<Rightarrow> string \<Rightarrow> string" where
  "target_path asset out_dir = path_join out_dir (build_filename asset @ file_ext asset)"

text \<open>
  The bytes \<open>save_stream_to_file\<close> puts in the file for a response, once the
  file is open: the chunks it wrote (all of them, or those that came before the
  stream raised), or the buffer.
\<close>

fun written :: "response \<Rightarrow> string" where
  "written (Response chunks err) = write_chunks chunks []"
| "written (Bytes b) = b"

text \<open>
  Among the \<open>n\<close> calls of a download capability that start at call \<open>lo\<close>, the
  response of the last call that returned one; \<open>None\<close> when every call raised.
\<close>

fun last_response :: "(nat \<Rightarrow> exn + response) \<Rightarrow> nat \<Rightarrow> nat \<Rightarrow> response option" where
  "last_response d lo 0 = None"
| "last_response d lo (Suc n) =
     (case d (lo + n) of Inr resp \<Rightarrow> Some resp | Inl e \<Rightarrow> last_response d lo n)"

text \<open>
  What the attempts made between the worlds \<open>w\<close> and \<open>w'\<close> leave in the file
  \<open>p\<close>: the bytes written for the last response that was received, when the file
  can be opened for writing; \<open>None\<close> when no attempt wrote to the file.
\<close>

definition leftover :: "asset \<Rightarrow> string \<Rightarrow> world \<Rightarrow> world \<Rightarrow> string option" where
  "leftover a p w w' =
     (case open_error w p of
        Some e \<Rightarrow> None
      | None \<Rightarrow> map_option written (last_response (download a) (calls w) (calls w' - calls w)))"

text \<open>
  The last calendar day of a month, as the Gregorian calendar gives it: thirty
  days for April, June, September and November, twenty-eight for February and
  twenty-nine in a leap year (a year divisible by 4, and not by 100 unless by 400),
  thirty-one for the rest.
\<close>

definition last_day_of_month :: "nat \<Rightarrow> nat \<Rightarrow> nat" where
  "last_day_of_month y m =
     (if m = 2 then (if 4 dvd y \<and> (\<not> 100 dvd y \<or> 400 dvd y) then 29 else 28)
      else if m \<in> {4, 6, 9, 11} then 30
      else 31)"




definition name_or_id :: "asset \<Rightarrow> string" where
  "name_or_id a =
     (case filename a of
        None \<Rightarrow> asset_id a
      | Some s \<Rightarrow> if s \<noteq> [] then s else asset_id a)"

definition after_last_dot :: "string \<Rightarrow> string" where
  "after_last_dot s = rev (takeWhile (\<lambda>c. c \<noteq> CHR ''.'') (rev s))"

definition original_filename :: "asset \<Rightarrow> string" where
  "original_filename a = (case filename a of None \<Rightarrow> [] | Some s \<Rightarrow> s)"

definition extension :: "asset \<Rightarrow> string" where
  "extension a =
     (if CHR ''.'' \<in> set (original_filename a)
      then ''.'' @ lower (after_last_dot (original_filename a))
      else if item_type a = ''video'' then ''.mov''
      else ''.jpg'')"

text \<open>
  The months of the calendar, counted from January of the year 0, and the first
  instant of the month with a given number. The sequence a range of months stands
  for: the first instants of the months from the start's to the end's, in order.
\<close>

definition month_index :: "nat \<Rightarrow> nat \<Rightarrow> nat" where
  "month_index y m = 12 * y + (m - 1)"

definition month_start :: "nat \<Rightarrow> datetime" where
  "month_start k = ym (k div 12) (k mod 12 + 1)"

definition months_from_to :: "nat \<Rightarrow> nat \<Rightarrow> nat \<Rightarrow> nat \<Rightarrow> datetime list" where
  "months_from_to y1 m1 y2 m2 = map month_start [month_index y1 m1 ..< month_index y2 m2 + 1]"

section \<open>Concrete data\<close>

text \<open>A download capability that raises on every call.\<close>

definition always_raises :: "nat \<Rightarrow> exn + response" where
  "always_raises k = Inl (Exn ''ConnectionError'' (''reset '' @ dec k))"

definition photo :: asset where
  "photo = \<lparr>asset_id = ''ID1'', filename = Some ''My:File*Name?.JPG'', item_type = ''image'',
     created = Some \<lparr>year = 2026, month = 1, day = 5, hour = 10, minute = 20, second = 30,
       microsecond = 0\<rparr>,
     download = always_raises\<rparr>"

definition video :: asset where
  "video = \<lparr>asset_id = ''ID2'', filename = None, item_type = ''video'',
     created = None, download = always_raises\<rparr>"

text \<open>An empty output directory, and one that holds the file of \<open>photo\<close>.\<close>

definition world0 :: world where
  "world0 = \<lparr>fs = Map.empty, open_error = (\<lambda>p. None), calls = 0, trace = []\<rparr>"

definition world1 :: world where
  "world1 = \<lparr>fs = [''out/20260105_102030_MyFileName.JPG.jpg'' \<mapsto> ''x''],
     open_error = (\<lambda>p. None), calls = 0, trace = []\<rparr>"

text \<open>A download capability whose stream breaks after the first chunk, on every call.\<close>

definition breaks_midway :: "nat \<Rightarrow> exn + response" where
  "breaks_midway k = Inr (Response [''abc''] (Some (Exn ''ChunkedEncodingError'' ''broken'')))"

definition streamed_photo :: asset where
  "streamed_photo = photo\<lparr>download := breaks_midway\<rparr>"

text \<open>
  A download capability whose stream breaks after the first chunk on the first
  call, and before any chunk on every later call.
\<close>

definition breaks_earlier :: "nat \<Rightarrow> exn + response" where
  "breaks_earlier k =
     (if k = 0 then Inr (Response [''abc''] (Some (Exn ''ChunkedEncodingError'' ''broken'')))
      else Inr (Response [] (Some (Exn ''ChunkedEncodingError'' ''broken''))))"

definition truncated_photo :: asset where
  "truncated_photo = photo\<lparr>download := breaks_earlier\<rparr>"

text \<open>An output directory in which no file can be opened for writing.\<close>

definition readonly_world :: world where
  "readonly_world = \<lparr>fs = Map.empty,
     open_error = (\<lambda>p. Some (Exn ''PermissionError'' ''Permission denied'')),
     calls = 0, trace = []\<rparr>"


text \<open>Assets around the end of January 2026, and the bounds of that month.\<close>

definition at_time :: "asset \<Rightarrow> datetime \<Rightarrow> asset" where
  "at_time a t = a\<lparr>created := Some t\<rparr>"

definition jan_first :: datetime where
  "jan_first = \<lparr>year = 2026, month = 1, day = 1, hour = 0, minute = 0, second = 0,
     microsecond = 0\<rparr>"

definition jan_last :: datetime where
  "jan_last = \<lparr>year = 2026, month = 1, day = 31, hour = 23, minute = 59, second = 59,
     microsecond = 0\<rparr>"

definition feb_first :: datetime where
  "feb_first = \<lparr>year = 2026, month = 2, day = 1, hour = 0, minute = 0, second = 0,
     microsecond = 0\<rparr>"

definition library :: "asset list" where
  "library = [at_time video feb_first, video, at_time photo jan_last, photo,
              at_time video jan_first]"

section \<open>The downloader: skipping\<close>

lemma target_path_photo: "target_path photo ''out'' = ''out/20260105_102030_MyFileName.JPG.jpg''"
  by code_simp

text \<open>
  C9. With the skip-videos flag set, \<open>download_asset\<close> on an asset of kind video
  returns \<open>(None, "skipped_video")\<close> at once: the world (files, count of download
  calls, sleeps) is the one it was given.
\<close>

theorem C9_skipped_video:
  "item_type asset = ''video'' \<Longrightarrow>
   download_asset True asset out_dir max_retries w = ((None, ''skipped_video''), w)"
  by (simp add: download_asset_def)

theorem C9_skipped_video_witness:
  "item_type video = ''video'' \<and>
   download_asset True video ''out'' 3 world0 = ((None, ''skipped_video''), world0)"
  using C9_skipped_video [of video "''out''" 3 world0] by (simp add: video_def)

text \<open>
  C2. For an asset that is not skipped as a video, when a file exists at the target
  path and its size is above 0, \<open>download_asset\<close> returns that path with status
  \<open>"skip"\<close> and leaves the world as it was: no download call is made.
\<close>

theorem C2_skip_existing:
  assumes "\<not> (SKIP_VIDEOS \<and> item_type asset = ''video'')"
    and "path_exists w (target_path asset out_dir)"
    and "getsize w (target_path asset out_dir) > 0"
  shows "download_asset SKIP_VIDEOS asset out_dir max_retries w =
           ((Some (target_path asset out_dir), ''skip''), w)"
  using assms by (simp add: download_asset_def target_path_def Let_def)

theorem C2_skip_existing_witness:
  "download_asset False photo ''out'' 3 world1 =
     ((Some ''out/20260105_102030_MyFileName.JPG.jpg'', ''skip''), world1)"
  using C2_skip_existing [of False photo world1 "''out''" 3]
  by (simp add: target_path_photo path_exists_def getsize_def world1_def)

text \<open>
  C10. For an asset that is neither skipped as a video nor present as a non-empty
  file, \<open>download_asset\<close> with \<open>max_retries \<le> 0\<close> makes no download call and
  no sleep, and returns \<open>("NoneType: None", "error")\<close>.
\<close>

theorem C10_no_retries:
  assumes "max_retries \<le> 0"
    and "\<not> (SKIP_VIDEOS \<and> item_type asset = ''video'')"
    and "\<not> (path_exists w (target_path asset out_dir) \<and> getsize w (target_path asset out_dir) > 0)"
  shows "download_asset SKIP_VIDEOS asset out_dir max_retries w =
           ((Some ''NoneType: None'', ''error''), w)"
  using assms
  by (simp add: download_asset_def target_path_def Let_def download_loop.simps format_err_def)

theorem C10_no_retries_witness:
  "download_asset False photo ''out'' 0 world0 = ((Some ''NoneType: None'', ''error''), world0)"
  using C10_no_retries [of 0 False photo world0 "''out''"]
  by (simp add: path_exists_def world0_def)

section \<open>The downloader: retries\<close>

lemma try_download_raises:
  "download a (calls w) = Inl e \<Longrightarrow>
   try_download a p w = (Inl e, w\<lparr>calls := calls w + 1, trace := trace w @ [Download_call]\<rparr>)"
  by (simp add: try_download_def Let_def)

text \<open>
  One round of the loop when the download raises: a call of the download
  capability, then a sleep of 1.5 times the number of the attempt.
\<close>

definition failed_round :: "int \<Rightarrow> event list" where
  "failed_round i = [Download_call, Sleep (3 / 2 * of_int i)]"

lemma download_loop_all_raise:
  "\<forall>k. isl (download a k) \<Longrightarrow> attempt \<le> n \<Longrightarrow>
    download_loop a p n attempt last_err w =
      ((Some (format_err (if attempt < n
                          then Some (projl (download a (calls w + nat (n - attempt) - 1)))
                          else last_err)), ''error''),
       w\<lparr>calls := calls w + nat (n - attempt),
         trace := trace w @ concat (map failed_round [attempt + 1..n])\<rparr>)"
proof (induction a p n attempt last_err w rule: download_loop.induct)
  case (1 asset target_path max_retries attempt last_err w)
  show ?case
  proof (cases "attempt < max_retries")
    case False
    with "1.prems" have "attempt = max_retries" by simp
    then show ?thesis by (simp add: download_loop.simps)
  next
    case True
    from "1.prems" have "isl (download asset (calls w))" by simp
    then obtain e where e: "download asset (calls w) = Inl e"
      by (cases "download asset (calls w)") auto
    let ?w1 = "w\<lparr>calls := calls w + 1, trace := trace w @ [Download_call]\<rparr>"
    let ?w2 = "sleep (3 / 2 * of_int (attempt + 1)) ?w1"
    have t: "try_download asset target_path w = (Inl e, ?w1)"
      by (rule try_download_raises [OF e])
    have step: "download_loop asset target_path max_retries attempt last_err w =
                download_loop asset target_path max_retries (attempt + 1) (Some e) ?w2"
      using True t by (subst download_loop.simps) simp
    have ih: "download_loop asset target_path max_retries (attempt + 1) (Some e) ?w2 =
      ((Some (format_err (if attempt + 1 < max_retries
                          then Some (projl (download asset (calls ?w2 + nat (max_retries - (attempt + 1)) - 1)))
                          else Some e)), ''error''),
       ?w2\<lparr>calls := calls ?w2 + nat (max_retries - (attempt + 1)),
         trace := trace ?w2 @ concat (map failed_round [attempt + 1 + 1..max_retries])\<rparr>)"
      using True t "1.prems" by (intro "1.IH") auto
    have up: "[attempt + 1..max_retries] = (attempt + 1) # [attempt + 1 + 1..max_retries]"
      using True by (simp add: upto_rec1)
    have c: "calls ?w2 = calls w + 1"
      and s: "trace ?w2 = trace w @ failed_round (attempt + 1)"
      by (simp_all add: sleep_def failed_round_def)
    have n: "calls w + 1 + nat (max_retries - (attempt + 1)) = calls w + nat (max_retries - attempt)"
      using True by simp
    have last: "(if attempt + 1 < max_retries
                 then Some (projl (download asset (calls ?w2 + nat (max_retries - (attempt + 1)) - 1)))
                 else Some e) = Some (projl (download asset (calls w + nat (max_retries - attempt) - 1)))"
    proof (cases "attempt + 1 < max_retries")
      case True
      then show ?thesis unfolding c n by simp
    next
      case False
      with \<open>attempt < max_retries\<close> have "max_retries - attempt = 1" by simp
      then show ?thesis using False e by simp
    qed
    have tr: "trace ?w2 @ concat (map failed_round [attempt + 1 + 1..max_retries]) =
              trace w @ concat (map failed_round [attempt + 1..max_retries])"
      unfolding s up by simp
    show ?thesis
      unfolding step ih last unfolding tr c n using True by (simp add: sleep_def)
  qed
qed

lemma upto_1_3: "[0 + 1..3::int] = [1, 2, 3]"
  by code_simp

lemma three_failed_rounds:
  "concat (map failed_round [1, 2, 3]) =
     [Download_call, Sleep (3 / 2), Download_call, Sleep 3, Download_call, Sleep (9 / 2)]"
  by (simp add: failed_round_def)

text \<open>
  C3. For an asset that is not skipped and whose download capability raises on
  every call, \<open>download_asset\<close> with \<open>max_retries = 3\<close> calls the download
  exactly 3 times and sleeps after each failed call, 1.5 seconds after the first,
  3.0 after the second and 4.5 after the third, in this order; then it returns
  status \<open>"error"\<close> with the message made of the type name and the text of the
  last error. The files are untouched.
\<close>

theorem C3_retry_exhaustion:
  assumes "\<not> (SKIP_VIDEOS \<and> item_type asset = ''video'')"
    and "\<not> (path_exists w (target_path asset out_dir) \<and> getsize w (target_path asset out_dir) > 0)"
    and "\<forall>k. isl (download asset k)"
  shows "download_asset SKIP_VIDEOS asset out_dir 3 w =
           ((Some (exn_type (projl (download asset (calls w + 2))) @ '': '' @
                   exn_text (projl (download asset (calls w + 2)))), ''error''),
            w\<lparr>calls := calls w + 3,
              trace := trace w @ [Download_call, Sleep (3 / 2), Download_call, Sleep 3,
                                  Download_call, Sleep (9 / 2)]\<rparr>)"
proof -
  have "download_asset SKIP_VIDEOS asset out_dir 3 w =
          download_loop asset (target_path asset out_dir) 3 0 None w"
    using assms(1,2) unfolding download_asset_def target_path_def Let_def by auto
  also have "\<dots> = ((Some (format_err (Some (projl (download asset (calls w + nat (3 - 0) - 1))))), ''error''),
       w\<lparr>calls := calls w + nat (3 - 0),
         trace := trace w @ concat (map failed_round [0 + 1..3])\<rparr>)"
    using download_loop_all_raise [OF assms(3), of 0 3 "target_path asset out_dir" None w] by simp
  also have "\<dots> = ((Some (exn_type (projl (download asset (calls w + 2))) @ '': '' @
                   exn_text (projl (download asset (calls w + 2)))), ''error''),
            w\<lparr>calls := calls w + 3,
              trace := trace w @ [Download_call, Sleep (3 / 2), Download_call, Sleep 3,
                                  Download_call, Sleep (9 / 2)]\<rparr>)"
    unfolding upto_1_3 three_failed_rounds by (simp add: format_err_def)
  finally show ?thesis .
qed

theorem C3_retry_exhaustion_witness:
  "download_asset False photo ''out'' 3 world0 =
     ((Some ''ConnectionError: reset 2'', ''error''),
      world0\<lparr>calls := 3,
        trace := [Download_call, Sleep (3 / 2), Download_call, Sleep 3,
                  Download_call, Sleep (9 / 2)]\<rparr>)"
proof -
  have d: "dec 2 = ''2''" by code_simp
  have h1: "\<not> (False \<and> item_type photo = ''video'')" by simp
  have h2: "\<not> (path_exists world0 (target_path photo ''out'') \<and>
                getsize world0 (target_path photo ''out'') > 0)"
    by (simp add: path_exists_def world0_def)
  have h3: "\<forall>k. isl (download photo k)"
    by (simp add: photo_def always_raises_def)
  have e: "download photo (calls world0 + 2) = Inl (Exn ''ConnectionError'' ''reset 2'')"
  proof -
    have n: "calls world0 + 2 = 2" by (simp add: world0_def)
    have f: "download photo = always_raises" by (simp add: photo_def)
    show ?thesis unfolding n f always_raises_def d by simp
  qed
  have c: "calls world0 = 0" "trace world0 = []"
    by (simp_all add: world0_def)
  from C3_retry_exhaustion [OF h1 h2 h3] show ?thesis
    unfolding e by (simp add: c)
qed

text \<open>
  When the first download succeeds, the loop makes that one call and does not
  sleep.
\<close>

lemma download_loop_first_ok:
  assumes "0 < n" and "download a (calls w) = Inr (Bytes b)" and "open_error w p = None"
  shows "download_loop a p n 0 None w =
           ((Some p, ''ok''),
            w\<lparr>fs := (fs w)(p \<mapsto> b), calls := calls w + 1, trace := trace w @ [Download_call]\<rparr>)"
  using assms
  by (simp add: download_loop.simps [of a p n 0] try_download_def save_stream_to_file_def Let_def)

section \<open>The downloader: what a failed run leaves behind\<close>

lemma download_asset_unfold:
  "download_asset sv a out n w =
     (if sv \<and> item_type a = ''video'' then ((None, ''skipped_video''), w)
      else if path_exists w (target_path a out) \<and> getsize w (target_path a out) > 0
      then ((Some (target_path a out), ''skip''), w)
      else download_loop a (target_path a out) n 0 None w)"
  by (simp add: download_asset_def target_path_def Let_def)

lemma save_stream_to_file_effect:
  assumes "save_stream_to_file resp p w = (r, w')"
  shows "calls w' = calls w \<and> open_error w' = open_error w \<and>
         fs w' = (if open_error w p = None then (fs w)(p \<mapsto> written resp) else fs w)"
  using assms
  by (auto simp: save_stream_to_file_def Let_def split: response.splits option.splits)

text \<open>One attempt: which bytes it leaves, whatever its outcome.\<close>

lemma try_download_effect:
  assumes "try_download a p w = (r, w')"
  shows "calls w' = calls w + 1 \<and> open_error w' = open_error w \<and>
         fs w' = (case download a (calls w) of
                    Inl e \<Rightarrow> fs w
                  | Inr resp \<Rightarrow> if open_error w p = None then (fs w)(p \<mapsto> written resp) else fs w)"
proof (cases "download a (calls w)")
  case (Inl x)
  with assms show ?thesis by (auto simp: try_download_def Let_def)
next
  case (Inr resp)
  with assms have s: "save_stream_to_file resp p
      (w\<lparr>calls := calls w + 1, trace := trace w @ [Download_call]\<rparr>) = (r, w')"
    by (simp add: try_download_def Let_def)
  from save_stream_to_file_effect [OF s] Inr show ?thesis by simp
qed

lemma last_response_first:
  "last_response d lo (Suc n) =
     (case last_response d (Suc lo) n of
        Some resp \<Rightarrow> Some resp
      | None \<Rightarrow> (case d lo of Inr resp \<Rightarrow> Some resp | Inl e \<Rightarrow> None))"
  by (induction n) (auto split: sum.splits option.splits)

lemma leftover_one:
  "calls w1 = calls w + 1 \<Longrightarrow>
   leftover a p w w1 =
     (case open_error w p of
        Some e \<Rightarrow> None
      | None \<Rightarrow> (case download a (calls w) of Inr resp \<Rightarrow> Some (written resp) | Inl e \<Rightarrow> None))"
  by (simp add: leftover_def split: option.splits sum.splits)

lemma leftover_first:
  assumes "calls w2 = calls w + 1" and "open_error w2 = open_error w" and "calls w2 \<le> calls w'"
  shows "leftover a p w w' =
     (case leftover a p w2 w' of
        Some b \<Rightarrow> Some b
      | None \<Rightarrow> leftover a p w w2)"
proof -
  from assms(1,3) have n: "calls w' - calls w = Suc (calls w' - calls w2)" by simp
  have w2: "calls w2 - calls w = Suc 0" using assms(1) by simp
  show ?thesis
    unfolding leftover_def n w2 assms(2) last_response_first [of _ "calls w"]
    using assms(1) by (simp split: option.splits sum.splits)
qed

text \<open>
  The loop, whatever it returns: the count of calls does not go down, opening
  fails as before, and the files are those of the start with the target file
  replaced by what the attempts left in it.
\<close>

lemma download_loop_effect:
  "download_loop a p n k last_err w = (res, w') \<Longrightarrow>
   calls w \<le> calls w' \<and> open_error w' = open_error w \<and>
   fs w' = (case leftover a p w w' of None \<Rightarrow> fs w | Some b \<Rightarrow> (fs w)(p \<mapsto> b))"
proof (induction a p n k last_err w rule: download_loop.induct)
  case (1 asset target_path max_retries attempt last_err w)
  show ?case
  proof (cases "attempt < max_retries")
    case False
    with "1.prems" have "w' = w" by (simp add: download_loop.simps)
    then show ?thesis by (simp add: leftover_def split: option.splits)
  next
    case True
    obtain r w1 where t: "try_download asset target_path w = (r, w1)" by force
    note eff = try_download_effect [OF t]
    have one: "fs w1 = (case leftover asset target_path w w1 of
                          None \<Rightarrow> fs w | Some b \<Rightarrow> (fs w)(target_path \<mapsto> b))"
      using eff by (simp add: leftover_one split: option.splits sum.splits)
    show ?thesis
    proof (cases r)
      case (Inr u)
      with True t "1.prems" have "w' = w1" by (simp add: download_loop.simps)
      with eff one show ?thesis by simp
    next
      case (Inl e)
      let ?w2 = "sleep (3 / 2 * of_int (attempt + 1)) w1"
      from True t Inl "1.prems"
      have rec: "download_loop asset target_path max_retries (attempt + 1) (Some e) ?w2 = (res, w')"
        by (simp add: download_loop.simps)
      have w2: "calls ?w2 = calls w + 1" "open_error ?w2 = open_error w" "fs ?w2 = fs w1"
        using eff by (simp_all add: sleep_def)
      have cw: "calls ?w2 = calls w1" by (simp add: sleep_def)
      have l2: "leftover asset target_path w ?w2 = leftover asset target_path w w1"
        unfolding leftover_def cw by (rule refl)
      have ih: "calls ?w2 \<le> calls w' \<and> open_error w' = open_error ?w2 \<and>
                fs w' = (case leftover asset target_path ?w2 w' of
                           None \<Rightarrow> fs ?w2 | Some b \<Rightarrow> (fs ?w2)(target_path \<mapsto> b))"
        using True t Inl rec by (intro "1.IH") auto
      note first = leftover_first [OF w2(1) w2(2), of w' asset target_path]
      have "fs w' = (case leftover asset target_path w w' of
                       None \<Rightarrow> fs w | Some b \<Rightarrow> (fs w)(target_path \<mapsto> b))"
      proof (cases "leftover asset target_path ?w2 w'")
        case None
        with ih first l2 one w2(3) show ?thesis by simp
      next
        case (Some b)
        with ih first have "leftover asset target_path w w' = Some b"
          and "fs w' = (fs w1)(target_path \<mapsto> b)"
          using w2(3) by simp_all
        with one show ?thesis by (simp split: option.splits)
      qed
      with ih w2 show ?thesis by simp
    qed
  qed
qed

lemma download_loop_status:
  "snd (fst (download_loop a p n k last_err w)) = ''ok'' \<or>
   snd (fst (download_loop a p n k last_err w)) = ''error''"
proof (induction a p n k last_err w rule: download_loop.induct)
  case (1 asset target_path max_retries attempt last_err w)
  show ?case
  proof (cases "attempt < max_retries")
    case False
    then show ?thesis by (simp add: download_loop.simps)
  next
    case True
    obtain res w1 where t: "try_download asset target_path w = (res, w1)" by force
    show ?thesis
    proof (cases res)
      case (Inr u)
      with True t show ?thesis by (simp add: download_loop.simps)
    next
      case (Inl e)
      let ?w2 = "sleep (3 / 2 * of_int (attempt + 1)) w1"
      have ih: "snd (fst (download_loop asset target_path max_retries (attempt + 1) (Some e) ?w2)) = ''ok'' \<or>
                snd (fst (download_loop asset target_path max_retries (attempt + 1) (Some e) ?w2)) = ''error''"
        by (rule "1.IH") (use True t Inl in auto)
      have "download_loop asset target_path max_retries attempt last_err w =
            download_loop asset target_path max_retries (attempt + 1) (Some e) ?w2"
        using True t Inl by (subst download_loop.simps) simp
      with ih show ?thesis by simp
    qed
  qed
qed

text \<open>
  C1, as amended. When \<open>download_asset\<close> returns status \<open>"error"\<close>, the target
  file holds the bytes written for the last response an attempt received, when the
  file can be opened for writing, and the files are as before when no attempt wrote
  to it. A non-empty file is at the target path afterwards exactly when those bytes
  are not empty, and exactly then the next call of \<open>download_asset\<close> on the same
  asset and output directory returns \<open>"skip"\<close>.
\<close>

theorem C1_error_leftover:
  assumes run: "download_asset sv a out n w = ((r, ''error''), w')"
  shows "fs w' = (case leftover a (target_path a out) w w' of
                    None \<Rightarrow> fs w
                  | Some b \<Rightarrow> (fs w)(target_path a out \<mapsto> b)) \<and>
         (path_exists w' (target_path a out) \<and> getsize w' (target_path a out) > 0) =
           (\<exists>b. leftover a (target_path a out) w w' = Some b \<and> b \<noteq> []) \<and>
         (snd (fst (download_asset sv a out n' w')) = ''skip'') =
           (\<exists>b. leftover a (target_path a out) w w' = Some b \<and> b \<noteq> [])"
proof -
  let ?p = "target_path a out"
  from run have nv: "\<not> (sv \<and> item_type a = ''video'')"
    by (auto simp: download_asset_unfold split: if_splits)
  from run have ne: "\<not> (path_exists w ?p \<and> getsize w ?p > 0)"
    by (auto simp: download_asset_unfold split: if_splits)
  from run nv ne have loop: "download_loop a ?p n 0 None w = ((r, ''error''), w')"
    by (simp add: download_asset_unfold)
  from download_loop_effect [OF loop]
  have files: "fs w' = (case leftover a ?p w w' of None \<Rightarrow> fs w | Some b \<Rightarrow> (fs w)(?p \<mapsto> b))"
    by simp
  have full: "(path_exists w' ?p \<and> getsize w' ?p > 0) = (\<exists>b. leftover a ?p w w' = Some b \<and> b \<noteq> [])"
  proof (cases "leftover a ?p w w'")
    case None
    with files ne show ?thesis by (simp add: path_exists_def getsize_def)
  next
    case (Some b)
    with files show ?thesis by (simp add: path_exists_def getsize_def)
  qed
  have nxt: "(snd (fst (download_asset sv a out n' w')) = ''skip'') =
             (path_exists w' ?p \<and> getsize w' ?p > 0)"
  proof (cases "path_exists w' ?p \<and> getsize w' ?p > 0")
    case True
    with nv show ?thesis by (simp add: download_asset_unfold)
  next
    case False
    with nv have "download_asset sv a out n' w' = download_loop a ?p n' 0 None w'"
      by (auto simp: download_asset_unfold)
    with download_loop_status [of a ?p n' 0 None w'] False show ?thesis by auto
  qed
  from files full nxt show ?thesis by simp
qed

lemma target_path_streamed_photo:
  "target_path streamed_photo ''out'' = ''out/20260105_102030_MyFileName.JPG.jpg''"
  by code_simp

lemma target_path_truncated_photo:
  "target_path truncated_photo ''out'' = ''out/20260105_102030_MyFileName.JPG.jpg''"
  by code_simp

lemma streamed_photo_loop:
  "download_loop streamed_photo p 3 0 None world0 =
     ((Some ''ChunkedEncodingError: broken'', ''error''),
      world0\<lparr>fs := [p \<mapsto> ''abc''], calls := 3,
        trace := [Download_call, Sleep (3 / 2), Download_call, Sleep 3,
                  Download_call, Sleep (9 / 2)]\<rparr>)"
  by (simp add: download_loop.simps try_download_def save_stream_to_file_def Let_def
        streamed_photo_def breaks_midway_def sleep_def world0_def format_err_def)

lemma streamed_photo_run:
  "download_asset False streamed_photo ''out'' 3 world0 =
     ((Some ''ChunkedEncodingError: broken'', ''error''),
      world0\<lparr>fs := [''out/20260105_102030_MyFileName.JPG.jpg'' \<mapsto> ''abc''], calls := 3,
        trace := [Download_call, Sleep (3 / 2), Download_call, Sleep 3,
                  Download_call, Sleep (9 / 2)]\<rparr>)"
  unfolding download_asset_unfold target_path_streamed_photo streamed_photo_loop
  by (simp add: path_exists_def world0_def)

text \<open>
  C1 as stated does not hold: the file is written in place, so a stream that
  breaks after the chunk \<open>abc\<close> on each of the three attempts ends in status
  \<open>"error"\<close> with the three bytes in the target file, and the next call returns
  \<open>"skip"\<close> although no download completed.
\<close>

theorem C1_partial_file_counterexample:
  "snd (fst (download_asset False streamed_photo ''out'' 3 world0)) = ''error'' \<and>
   fs (snd (download_asset False streamed_photo ''out'' 3 world0))
      (target_path streamed_photo ''out'') = Some ''abc'' \<and>
   snd (fst (download_asset False streamed_photo ''out'' 3
               (snd (download_asset False streamed_photo ''out'' 3 world0)))) = ''skip''"
  unfolding streamed_photo_run
  by (simp add: download_asset_unfold target_path_streamed_photo path_exists_def getsize_def)

text \<open>
  Two runs that end in status \<open>"error"\<close> and leave no bytes: one whose first
  attempt writes \<open>abc\<close> and whose later attempts open the file again and fail
  before any chunk, and one in which the file cannot be opened at all.
\<close>

lemma truncated_photo_run:
  "download_asset False truncated_photo ''out'' 3 world0 =
     ((Some ''ChunkedEncodingError: broken'', ''error''),
      world0\<lparr>fs := [''out/20260105_102030_MyFileName.JPG.jpg'' \<mapsto> []], calls := 3,
        trace := [Download_call, Sleep (3 / 2), Download_call, Sleep 3,
                  Download_call, Sleep (9 / 2)]\<rparr>)"
proof -
  have "download_loop truncated_photo p 3 0 None world0 =
     ((Some ''ChunkedEncodingError: broken'', ''error''),
      world0\<lparr>fs := [p \<mapsto> []], calls := 3,
        trace := [Download_call, Sleep (3 / 2), Download_call, Sleep 3,
                  Download_call, Sleep (9 / 2)]\<rparr>)" for p
    by (simp add: download_loop.simps try_download_def save_stream_to_file_def Let_def
          truncated_photo_def breaks_earlier_def sleep_def world0_def format_err_def)
  then show ?thesis
    unfolding download_asset_unfold target_path_truncated_photo
    by (simp add: path_exists_def world0_def)
qed

lemma readonly_run:
  "download_asset False streamed_photo ''out'' 3 readonly_world =
     ((Some ''PermissionError: Permission denied'', ''error''),
      readonly_world\<lparr>calls := 3,
        trace := [Download_call, Sleep (3 / 2), Download_call, Sleep 3,
                  Download_call, Sleep (9 / 2)]\<rparr>)"
proof -
  have "download_loop streamed_photo p 3 0 None readonly_world =
     ((Some ''PermissionError: Permission denied'', ''error''),
      readonly_world\<lparr>calls := 3,
        trace := [Download_call, Sleep (3 / 2), Download_call, Sleep 3,
                  Download_call, Sleep (9 / 2)]\<rparr>)" for p
    by (simp add: download_loop.simps try_download_def save_stream_to_file_def Let_def
          streamed_photo_def breaks_midway_def sleep_def readonly_world_def format_err_def)
  then show ?thesis
    unfolding download_asset_unfold target_path_streamed_photo
    by (simp add: path_exists_def readonly_world_def)
qed

theorem C1_error_leftover_witness:
  "snd (fst (download_asset False truncated_photo ''out'' 3 world0)) = ''error'' \<and>
   fs (snd (download_asset False truncated_photo ''out'' 3 world0))
      (target_path truncated_photo ''out'') = Some [] \<and>
   snd (fst (download_asset False truncated_photo ''out'' 3
               (snd (download_asset False truncated_photo ''out'' 3 world0)))) \<noteq> ''skip'' \<and>
   snd (fst (download_asset False streamed_photo ''out'' 3 readonly_world)) = ''error'' \<and>
   fs (snd (download_asset False streamed_photo ''out'' 3 readonly_world)) = fs readonly_world \<and>
   snd (fst (download_asset False streamed_photo ''out'' 3
               (snd (download_asset False streamed_photo ''out'' 3 readonly_world)))) \<noteq> ''skip''"
proof -
  let ?t = "[Download_call, Sleep (3 / 2), Download_call, Sleep 3, Download_call, Sleep (9 / 2)]"
  let ?w1 = "world0\<lparr>fs := [''out/20260105_102030_MyFileName.JPG.jpg'' \<mapsto> []], calls := 3,
               trace := ?t\<rparr>"
  let ?w2 = "readonly_world\<lparr>calls := 3, trace := ?t\<rparr>"
  have l1: "leftover truncated_photo (target_path truncated_photo ''out'') world0 ?w1 = Some []"
    by (simp add: leftover_def world0_def truncated_photo_def breaks_earlier_def
          numeral_3_eq_3)
  have l2: "leftover streamed_photo (target_path streamed_photo ''out'') readonly_world ?w2 = None"
    by (simp add: leftover_def readonly_world_def)
  note t1 = C1_error_leftover [OF truncated_photo_run, of 3, THEN conjunct2, THEN conjunct2]
  note t2 = C1_error_leftover [OF readonly_run, of 3, THEN conjunct2, THEN conjunct2]
  have a: "fs ?w1 (target_path truncated_photo ''out'') = Some []"
    by (simp add: target_path_truncated_photo)
  from t1 have b: "snd (fst (download_asset False truncated_photo ''out'' 3 ?w1)) \<noteq> ''skip''"
    unfolding l1 by simp
  have c: "fs ?w2 = fs readonly_world"
    by simp
  from t2 have d: "snd (fst (download_asset False streamed_photo ''out'' 3 ?w2)) \<noteq> ''skip''"
    unfolding l2 by simp
  from a b c d show ?thesis
    unfolding truncated_photo_run readonly_run by simp
qed

section \<open>Asset filter\<close>


lemma is_in_month_iff:
  "is_in_month a lo hi \<longleftrightarrow> (\<exists>t. created a = Some t \<and> dt_le lo t \<and> dt_le t hi)"
  by (cases "created a") (simp_all add: is_in_month_def asset_timestamp_def)

text \<open>
  C6. The month filter of \<open>main\<close> selects exactly the assets whose creation
  timestamp \<open>t\<close> is present with \<open>lo \<le> t \<le> hi\<close>, both bounds included; the
  selection keeps the order of the input list; no selected asset lacks a creation
  timestamp.
\<close>

theorem C6_month_filter:
  "matched photos lo hi =
     filter (\<lambda>a. \<exists>t. created a = Some t \<and> dt_le lo t \<and> dt_le t hi) photos \<and>
   subseq (matched photos lo hi) photos \<and>
   (\<forall>a \<in> set (matched photos lo hi). created a \<noteq> None)"
proof -
  have "matched photos lo hi =
     filter (\<lambda>a. \<exists>t. created a = Some t \<and> dt_le lo t \<and> dt_le t hi) photos"
    by (simp add: matched_def is_in_month_iff)
  moreover have "subseq (matched photos lo hi) photos"
    by (simp add: matched_def)
  moreover have "\<forall>a \<in> set (matched photos lo hi). created a \<noteq> None"
    by (auto simp: matched_def is_in_month_iff)
  ultimately show ?thesis by blast
qed

theorem C6_month_filter_witness:
  "matched library jan_first jan_last = [at_time photo jan_last, photo, at_time video jan_first]"
proof -
  have c: "created (at_time video feb_first) = Some feb_first" "created video = None"
    "created (at_time photo jan_last) = Some jan_last"
    "created photo = Some \<lparr>year = 2026, month = 1, day = 5, hour = 10, minute = 20,
       second = 30, microsecond = 0\<rparr>"
    "created (at_time video jan_first) = Some jan_first"
    by (simp_all add: at_time_def video_def photo_def)
  have "matched library jan_first jan_last =
     filter (\<lambda>a. \<exists>t. created a = Some t \<and> dt_le jan_first t \<and> dt_le t jan_last) library"
    using C6_month_filter [of library jan_first jan_last] by blast
  also have "\<dots> = [at_time photo jan_last, photo, at_time video jan_first]"
    by (simp add: library_def c)
       (simp add: dt_le_def dt_key_def jan_first_def jan_last_def feb_first_def)
  finally show ?thesis .
qed

section \<open>Month bounds\<close>

lemma mdays_nth:
  "1 \<le> m \<Longrightarrow> m \<le> 12 \<Longrightarrow>
   mdays ! m = (if m = 2 then 28 else if m \<in> {4, 6, 9, 11} then 30 else 31)"
proof -
  assume "1 \<le> m" "m \<le> 12"
  then have "m = 1 \<or> m = 2 \<or> m = 3 \<or> m = 4 \<or> m = 5 \<or> m = 6 \<or> m = 7 \<or> m = 8 \<or>
             m = 9 \<or> m = 10 \<or> m = 11 \<or> m = 12"
    by arith
  then show ?thesis by (auto simp: mdays_def)
qed

lemma isleap_dvd: "isleap y \<longleftrightarrow> 4 dvd y \<and> (\<not> 100 dvd y \<or> 400 dvd y)"
  by (simp add: isleap_def dvd_eq_mod_eq_0)

lemma monthrange_days_last:
  "1 \<le> m \<Longrightarrow> m \<le> 12 \<Longrightarrow> monthrange_days y m = Inr (last_day_of_month y m)"
  by (auto simp: monthrange_days_def mdays_nth isleap_dvd last_day_of_month_def)

text \<open>
  C8. For every month, \<open>month_bounds\<close> returns the first day of the month at
  00:00:00 and the last calendar day of the month at 23:59:59, in leap and in
  common years; February 2024 ends on day 29 and February 2023 on day 28.
\<close>

theorem C8_month_bounds:
  assumes "1 \<le> month d" and "month d \<le> 12"
  shows "month_bounds d =
     Inr (\<lparr>year = year d, month = month d, day = 1, hour = 0, minute = 0, second = 0,
            microsecond = 0\<rparr>,
          \<lparr>year = year d, month = month d, day = last_day_of_month (year d) (month d),
            hour = 23, minute = 59, second = 59, microsecond = 0\<rparr>)"
  using assms by (simp add: month_bounds_def Let_def monthrange_days_last)

theorem C8_month_bounds_witness:
  "month_bounds (ym 2024 2) =
     Inr (\<lparr>year = 2024, month = 2, day = 1, hour = 0, minute = 0, second = 0, microsecond = 0\<rparr>,
          \<lparr>year = 2024, month = 2, day = 29, hour = 23, minute = 59, second = 59,
            microsecond = 0\<rparr>) \<and>
   month_bounds (ym 2023 2) =
     Inr (\<lparr>year = 2023, month = 2, day = 1, hour = 0, minute = 0, second = 0, microsecond = 0\<rparr>,
          \<lparr>year = 2023, month = 2, day = 28, hour = 23, minute = 59, second = 59,
            microsecond = 0\<rparr>)"
proof -
  have l: "last_day_of_month 2024 2 = 29" "last_day_of_month 2023 2 = 28"
    by (simp_all add: last_day_of_month_def)
  from C8_month_bounds [of "ym 2024 2"] C8_month_bounds [of "ym 2023 2"]
  show ?thesis by (simp add: ym_def l)
qed

section \<open>Filename deriver\<close>


subsection \<open>Decimal printing\<close>










subsection \<open>Splitting at a separator\<close>

lemma split_without_sep: "c \<notin> set s \<Longrightarrow> split c s = [s]"
  by (induction s) auto

lemma length_split: "length (split c s) = Suc (length (filter (\<lambda>x. x = c) s))"
  by (induction s) (auto split: list.splits)

lemma last_split_append: "last (split c (xs @ c # ys)) = last (split c ys)"
proof (induction xs)
  case Nil
  have "split c ys \<noteq> []" using length_split [of c ys] by auto
  then show ?case by simp
next
  case (Cons x xs)
  have ne: "split c (xs @ c # ys) \<noteq> []" using length_split [of c "xs @ c # ys"] by auto
  show ?case
  proof (cases "x = c")
    case True
    with ne Cons show ?thesis by simp
  next
    case False
    obtain w ws where s: "split c (xs @ c # ys) = w # ws"
      using ne by (cases "split c (xs @ c # ys)") auto
    have "length (split c (xs @ c # ys)) \<ge> 2"
      by (simp add: length_split)
    with s have "ws \<noteq> []" by auto
    with False s Cons show ?thesis by simp
  qed
qed

lemma last_split: "last (split c s) = rev (takeWhile (\<lambda>x. x \<noteq> c) (rev s))"
proof (cases "c \<in> set s")
  case False
  then have "\<forall>x \<in> set (rev s). x \<noteq> c" by auto
  then have tw: "takeWhile (\<lambda>x. x \<noteq> c) (rev s) = rev s"
    by (rule takeWhile_eq_all_conv [THEN iffD2])
  show ?thesis unfolding split_without_sep [OF False] tw by simp
next
  case True
  then obtain xs ys where s: "s = xs @ c # ys" and n: "c \<notin> set ys"
    by (auto dest: split_list_last)
  have "takeWhile (\<lambda>x. x \<noteq> c) (rev ys @ c # rev xs) = rev ys"
    using n by (subst takeWhile_append2) auto
  with n show ?thesis
    unfolding s by (simp add: last_split_append split_without_sep)
qed

subsection \<open>Lower case\<close>

lemma lower_char_dot: "lower_char c = CHR ''.'' \<longleftrightarrow> c = CHR ''.''"
proof
  assume "c = CHR ''.''"
  then show "lower_char c = CHR ''.''" by (simp add: lower_char_def is_upper_def)
next
  assume l: "lower_char c = CHR ''.''"
  show "c = CHR ''.''"
  proof (cases "is_upper c")
    case False
    with l show ?thesis by (simp add: lower_char_def)
  next
    case True
    with l have "char_of ((of_char c :: nat) + 32) = CHR ''.''" by (simp add: lower_char_def)
    then have "(of_char (char_of ((of_char c :: nat) + 32)) :: nat) = of_char CHR ''.''" by simp
    then have m: "((of_char c :: nat) + 32) mod 256 = 46" by (simp add: of_char_of)
    from True have "(of_char c :: nat) + 32 < 256" "97 \<le> (of_char c :: nat) + 32"
      by (auto simp: is_upper_def)
    with m show ?thesis by simp
  qed
qed

lemma dot_in_lower: "CHR ''.'' \<in> set (lower s) \<longleftrightarrow> CHR ''.'' \<in> set s"
proof -
  have "CHR ''.'' \<in> set (lower s) \<longleftrightarrow> (\<exists>x \<in> set s. lower_char x = CHR ''.'')"
    by (auto simp: lower_def intro: rev_image_eqI)
  then show ?thesis by (simp add: lower_char_dot)
qed

lemma after_last_dot_lower: "after_last_dot (lower s) = lower (after_last_dot s)"
proof -
  have "takeWhile (\<lambda>c. c \<noteq> CHR ''.'') (map lower_char (rev s)) =
        map lower_char (takeWhile (\<lambda>c. c \<noteq> CHR ''.'') (rev s))"
    by (simp add: takeWhile_map comp_def lower_char_dot)
  then show ?thesis
    by (simp add: after_last_dot_def lower_def rev_map)
qed

lemma or_else_empty: "or_else x [] = (case x of None \<Rightarrow> [] | Some s \<Rightarrow> s)"
  by (simp add: or_else_def split: option.splits)

lemma file_ext_extension: "file_ext a = extension a"
proof -
  have n: "or_else (filename a) [] = original_filename a"
    by (simp add: or_else_empty original_filename_def)
  have "last (split CHR ''.'' x) = after_last_dot x" for x
    by (simp add: last_split after_last_dot_def)
  then have l: "last (split CHR ''.'' (lower (original_filename a))) =
           lower (after_last_dot (original_filename a))"
    by (simp add: after_last_dot_lower)
  show ?thesis
    by (simp add: file_ext_def extension_def Let_def n l dot_in_lower)
qed

lemma or_else_name_or_id: "or_else (filename a) (asset_id a) = name_or_id a"
  by (simp add: or_else_def name_or_id_def split: option.splits)

lemma base_name_unfold:
  "base_name a =
     (case created a of Some t \<Rightarrow> strftime_Ymd_HMS t | None \<Rightarrow> ''unknown'') @ ''_'' @ name_or_id a"
  by (cases "created a") (simp_all add: base_name_def asset_timestamp_def Let_def or_else_name_or_id)

lemma build_filename_base:
  "build_filename a =
     safe_filename ((case created a of Some t \<Rightarrow> strftime_Ymd_HMS t | None \<Rightarrow> ''unknown'') @
                    ''_'' @ name_or_id a)"
  by (simp add: build_filename_def base_name_unfold)







subsection \<open>The example of the specification\<close>

lemma example_time: 
  "strftime_Ymd_HMS \<lparr>year = 2026, month = 1, day = 5, hour = 10, minute = 20, second = 30,
     microsecond = 0\<rparr> = ''20260105_102030''"
  by code_simp

lemma example_safe:
  "safe_filename (''20260105_102030'' @ ''_'' @ ''My:File*Name?.JPG'') =
     ''20260105_102030_MyFileName.JPG''"
  by code_simp

lemma example_ext: "lower (after_last_dot ''My:File*Name?.JPG'') = ''jpg''"
  by code_simp

lemma example_clean:
  "set ''20260105_102030_MyFileName.JPG.jpg'' \<inter> set reserved = {}"
  "strip ''20260105_102030_MyFileName.JPG.jpg'' = ''20260105_102030_MyFileName.JPG.jpg''"
  by code_simp+

text \<open>
  C4, as amended. For an asset with original filename \<open>My:File*Name?.JPG\<close>
  created at 2026-01-05T10:20:30Z, the target filename is
  \<open>20260105_102030_MyFileName.JPG.jpg\<close>: the sanitized base name keeps the
  original extension and the derived extension is appended to it. The name has no
  reserved character and no white space around it.
\<close>

theorem C4_example_filename:
  assumes f: "filename a = Some ''My:File*Name?.JPG''"
    and c: "created a = Some \<lparr>year = 2026, month = 1, day = 5, hour = 10, minute = 20,
              second = 30, microsecond = 0\<rparr>"
  shows "build_filename a @ file_ext a = ''20260105_102030_MyFileName.JPG.jpg'' \<and>
         set (build_filename a @ file_ext a) \<inter> set reserved = {} \<and>
         strip (build_filename a @ file_ext a) = build_filename a @ file_ext a"
proof -
  have n: "name_or_id a = ''My:File*Name?.JPG''"
    using f by (simp add: name_or_id_def)
  have b: "build_filename a = ''20260105_102030_MyFileName.JPG''"
    unfolding build_filename_base c n option.case example_time by (rule example_safe)
  have o: "original_filename a = ''My:File*Name?.JPG''"
    using f by (simp add: original_filename_def)
  have e: "file_ext a = ''.jpg''"
    unfolding file_ext_extension extension_def o example_ext by simp
  have t: "build_filename a @ file_ext a = ''20260105_102030_MyFileName.JPG.jpg''"
    unfolding b e by simp
  show ?thesis unfolding t using example_clean by simp
qed

theorem C4_example_filename_witness:
  "build_filename photo @ file_ext photo = ''20260105_102030_MyFileName.JPG.jpg'' \<and>
   set (build_filename photo @ file_ext photo) \<inter> set reserved = {} \<and>
   strip (build_filename photo @ file_ext photo) = build_filename photo @ file_ext photo"
proof -
  have f: "filename photo = Some ''My:File*Name?.JPG''"
    by (simp add: photo_def)
  have c: "created photo = Some \<lparr>year = 2026, month = 1, day = 5, hour = 10, minute = 20,
              second = 30, microsecond = 0\<rparr>"
    by (simp add: photo_def)
  from C4_example_filename [OF f c] show ?thesis .
qed

text \<open>
  C4 as stated does not hold: the target filename of that asset is not
  \<open>20260105_102030_MyFileName.jpg\<close>.
\<close>

theorem C4_single_extension_counterexample:
  "filename photo = Some ''My:File*Name?.JPG'' \<and>
   created photo = Some \<lparr>year = 2026, month = 1, day = 5, hour = 10, minute = 20,
     second = 30, microsecond = 0\<rparr> \<and>
   build_filename photo @ file_ext photo \<noteq> ''20260105_102030_MyFileName.jpg''"
  by code_simp

section \<open>Month range\<close>


lemma month_start_index: "1 \<le> m \<Longrightarrow> m \<le> 12 \<Longrightarrow> month_start (month_index y m) = ym y m"
proof -
  assume m: "1 \<le> m" "m \<le> 12"
  then obtain j where j: "m = Suc j" by (cases m) auto
  with m have "j < 12" by simp
  then show ?thesis unfolding j month_start_def month_index_def by simp
qed

lemma dt_le_ym:
  "dt_le (ym y1 m1) (ym y2 m2) \<longleftrightarrow> y1 < y2 \<or> (y1 = y2 \<and> m1 \<le> m2)"
  by (auto simp: dt_le_def dt_key_def ym_def)

lemma dt_le_month_start: "dt_le (month_start k) (month_start e) \<longleftrightarrow> k \<le> e"
proof -
  have "dt_le (month_start k) (month_start e) \<longleftrightarrow>
        k div 12 < e div 12 \<or> (k div 12 = e div 12 \<and> k mod 12 \<le> e mod 12)"
    by (simp add: month_start_def dt_le_ym)
  also have "\<dots> \<longleftrightarrow> k \<le> e"
  proof -
    have k: "k = 12 * (k div 12) + k mod 12" and e: "e = 12 * (e div 12) + e mod 12"
      by simp_all
    have "k mod 12 < 12" "e mod 12 < 12" by simp_all
    with k e show ?thesis by linarith
  qed
  finally show ?thesis .
qed

lemma min_last_day: "min (last_day_of_month y m) (Suc 0) = Suc 0"
  by (simp add: last_day_of_month_def)

lemma add_one_month_ym:
  assumes "1 \<le> m" and "m \<le> 12" and "y \<le> MAXYEAR"
  shows "add_one_month (ym y m) =
     (if m = 12
      then (if MAXYEAR < y + 1
            then Inl (ValueError (''year '' @ dec (y + 1) @ '' is out of range''))
            else Inr (ym (y + 1) 1))
      else Inr (ym y (m + 1)))"
  using assms
  by (simp add: add_one_month_def Let_def ym_def monthrange_days_last min_last_day)


lemma month_start_Suc:
  "month_start (k + 1) = (if k mod 12 = 11 then ym (k div 12 + 1) 1 else ym (k div 12) (k mod 12 + 2))"
proof (cases "k mod 12 = 11")
  case True
  then have "(k + 1) div 12 = k div 12 + 1" "(k + 1) mod 12 = 0"
    by (simp_all add: div_Suc mod_Suc)
  with True show ?thesis by (simp add: month_start_def)
next
  case False
  then have "(k + 1) div 12 = k div 12" "(k + 1) mod 12 = k mod 12 + 1"
    by (simp_all add: div_Suc mod_Suc)
  with False show ?thesis by (simp add: month_start_def)
qed

lemma top_month_aux:
  "q \<le> M \<Longrightarrow> r < 12 \<Longrightarrow> (12 * q + r + 1 < 12 * (M + 1)) = (\<not> (r = 11 \<and> q = M))"
  for q r M :: nat
  by auto

lemma add_one_month_month_start:
  assumes "k < 12 * (MAXYEAR + 1)"
  shows "add_one_month (month_start k) =
     (if k + 1 < 12 * (MAXYEAR + 1) then Inr (month_start (k + 1))
      else Inl (ValueError (''year '' @ dec (MAXYEAR + 1) @ '' is out of range'')))"
proof -
  from assms have y: "k div 12 \<le> MAXYEAR"
    by (simp add: less_mult_imp_div_less)
  have m: "1 \<le> k mod 12 + 1" "k mod 12 + 1 \<le> 12"
    by simp_all
  have e: "k mod 12 + 1 = 12 \<longleftrightarrow> k mod 12 = 11" by auto
  have k: "k = 12 * (k div 12) + k mod 12" by simp
  have top: "k + 1 < 12 * (MAXYEAR + 1) \<longleftrightarrow> \<not> (k mod 12 = 11 \<and> k div 12 = MAXYEAR)"
  proof -
    have "k mod 12 < 12" by simp
    from top_month_aux [OF y this] show ?thesis by simp
  qed
  have y1: "MAXYEAR < k div 12 + 1 \<longleftrightarrow> k div 12 = MAXYEAR"
    using y by auto
  show ?thesis
    unfolding month_start_def [of k] add_one_month_ym [OF m y] e top month_start_Suc y1
    by (auto simp: numeral_2_eq_2)
qed


lemma month_range_loop_stop:
  "\<not> dt_le cur end_norm \<Longrightarrow> month_range_loop cur end_norm = ([], None)"
  by (simp add: month_range_loop.simps [of cur end_norm])

lemma month_range_loop_step:
  "dt_le cur end_norm \<Longrightarrow> add_one_month cur = Inr nxt \<Longrightarrow>
   month_range_loop cur end_norm =
     (cur # fst (month_range_loop nxt end_norm), snd (month_range_loop nxt end_norm))"
  by (simp add: month_range_loop.simps [of cur end_norm] split_beta)

lemma month_range_loop_raise:
  "dt_le cur end_norm \<Longrightarrow> add_one_month cur = Inl e \<Longrightarrow>
   month_range_loop cur end_norm = ([cur], Some e)"
  by (simp add: month_range_loop.simps [of cur end_norm])

lemma month_range_loop_index:
  "e < 12 * (MAXYEAR + 1) \<Longrightarrow> n = e + 1 - k \<Longrightarrow>
   fst (month_range_loop (month_start k) (month_start e)) = map month_start [k..<e + 1] \<and>
   (e + 1 < 12 * (MAXYEAR + 1) \<or> e < k \<longrightarrow>
      snd (month_range_loop (month_start k) (month_start e)) = None)"
proof (induction n arbitrary: k)
  case 0
  then have "\<not> dt_le (month_start k) (month_start e)"
    by (simp add: dt_le_month_start)
  then have "month_range_loop (month_start k) (month_start e) = ([], None)"
    by (rule month_range_loop_stop)
  moreover from 0 have "[k..<e + 1] = []" by simp
  ultimately show ?case by simp
next
  case (Suc n)
  then have le: "k \<le> e" by simp
  then have dle: "dt_le (month_start k) (month_start e)"
    by (simp add: dt_le_month_start)
  from le Suc.prems(1) have kb: "k < 12 * (MAXYEAR + 1)" by simp
  have u: "[k..<e + 1] = k # [k + 1..<e + 1]"
    using le by (simp add: upt_rec)
  show ?case
  proof (cases "k + 1 < 12 * (MAXYEAR + 1)")
    case True
    then have a: "add_one_month (month_start k) = Inr (month_start (k + 1))"
      by (simp add: add_one_month_month_start [OF kb])
    from Suc.prems have n: "n = e + 1 - (k + 1)" by simp
    note ih = Suc.IH [OF Suc.prems(1) n]
    from le have nk: "\<not> e < k" by simp
    have r: "e + 1 < 12 * (MAXYEAR + 1) \<longrightarrow>
             snd (month_range_loop (month_start (k + 1)) (month_start e)) = None"
      using ih by blast
    show ?thesis
      unfolding month_range_loop_step [OF dle a] u using ih r nk by simp
  next
    case False
    with le Suc.prems(1) have ke: "k = e" by simp
    from False have a: "add_one_month (month_start k) =
        Inl (ValueError (''year '' @ dec (MAXYEAR + 1) @ '' is out of range''))"
      by (simp add: add_one_month_month_start [OF kb])
    show ?thesis
      unfolding month_range_loop_raise [OF dle a] using ke False by simp
  qed
qed

lemma day_ym: "(ym y m)\<lparr>day := 1\<rparr> = ym y m" "(ym y m)\<lparr>day := Suc 0\<rparr> = ym y m"
  by (simp_all add: ym_def)

lemma month_index_bound:
  "1 \<le> m \<Longrightarrow> m \<le> 12 \<Longrightarrow> y \<le> MAXYEAR \<Longrightarrow> month_index y m < 12 * (MAXYEAR + 1)"
  by (simp add: month_index_def)

text \<open>
  C7. For year-month values \<open>start\<close> and \<open>end\<close>, \<open>month_range\<close> yields the
  first-of-month instants from the month of \<open>start\<close> up to and including the
  month of \<open>end\<close>, in order. When \<open>start > end\<close> it yields nothing and ends
  normally. The loop always ends (the function is total); the iteration ends
  without an exception unless \<open>end\<close> is December of \<open>MAXYEAR\<close>. The range
  from 2026-01 to 2026-03 is exactly the three first days of January, February
  and March 2026.
\<close>

theorem C7_month_range:
  assumes "1 \<le> m1" and "m1 \<le> 12" and "1 \<le> m2" and "m2 \<le> 12" and "y2 \<le> MAXYEAR"
  shows "fst (month_range (ym y1 m1) (ym y2 m2)) = months_from_to y1 m1 y2 m2 \<and>
         (dt_less (ym y2 m2) (ym y1 m1) \<longrightarrow> month_range (ym y1 m1) (ym y2 m2) = ([], None)) \<and>
         (\<not> (y2 = MAXYEAR \<and> m2 = 12) \<longrightarrow> snd (month_range (ym y1 m1) (ym y2 m2)) = None)"
proof -
  let ?k = "month_index y1 m1" and ?e = "month_index y2 m2"
  have r: "month_range (ym y1 m1) (ym y2 m2) = month_range_loop (month_start ?k) (month_start ?e)"
    using assms by (simp add: month_range_def Let_def day_ym month_start_index)
  have b: "?e < 12 * (MAXYEAR + 1)"
    using assms by (intro month_index_bound)
  note loop = month_range_loop_index [OF b refl, of ?k]
  have one: "fst (month_range (ym y1 m1) (ym y2 m2)) = months_from_to y1 m1 y2 m2"
    unfolding r months_from_to_def using loop by blast
  have two: "dt_less (ym y2 m2) (ym y1 m1) \<longrightarrow> month_range (ym y1 m1) (ym y2 m2) = ([], None)"
  proof
    assume "dt_less (ym y2 m2) (ym y1 m1)"
    then have "\<not> dt_le (ym y1 m1) (ym y2 m2)"
      by (auto simp: dt_less_def dt_le_def)
    then show "month_range (ym y1 m1) (ym y2 m2) = ([], None)"
      by (simp add: month_range_def Let_def day_ym month_range_loop_stop)
  qed
  have three: "\<not> (y2 = MAXYEAR \<and> m2 = 12) \<longrightarrow> snd (month_range (ym y1 m1) (ym y2 m2)) = None"
  proof
    assume "\<not> (y2 = MAXYEAR \<and> m2 = 12)"
    with assms have "?e + 1 < 12 * (MAXYEAR + 1)"
      by (auto simp: month_index_def)
    with loop show "snd (month_range (ym y1 m1) (ym y2 m2)) = None"
      unfolding r by blast
  qed
  from one two three show ?thesis by blast
qed

text \<open>
  At the last month a \<open>datetime\<close> can hold, the generator yields that month and
  then raises: the next month would be in the year 10000.
\<close>

lemma month_range_top:
  "month_range (ym MAXYEAR 12) (ym MAXYEAR 12) =
     ([ym MAXYEAR 12], Some (ValueError ''year 10000 is out of range''))"
proof -
  have g: "digit 0 = CHR ''0''" "digit (Suc 0) = CHR ''1''" by code_simp+
  have "dec 10000 = [digit 1, digit 0, digit 0, digit 0, digit 0]"
    by (simp add: dec.simps)
  then have d: "dec (Suc MAXYEAR) = ''10000''" by (simp add: MAXYEAR_def g)
  have a: "add_one_month (ym MAXYEAR 12) = Inl (ValueError ''year 10000 is out of range'')"
    by (simp add: add_one_month_ym d)
  have le: "dt_le (ym MAXYEAR 12) (ym MAXYEAR 12)"
    by (simp add: dt_le_ym)
  show ?thesis
    unfolding month_range_def Let_def day_ym by (rule month_range_loop_raise [OF le a])
qed

theorem C7_month_range_witness:
  "parse_month ''2026-01'' = Inr (ym 2026 1) \<and> parse_month ''2026-03'' = Inr (ym 2026 3) \<and>
   month_range (ym 2026 1) (ym 2026 3) = ([ym 2026 1, ym 2026 2, ym 2026 3], None) \<and>
   month_range (ym 2026 3) (ym 2026 1) = ([], None)"
proof -
  have p: "parse_month ''2026-01'' = Inr (ym 2026 1)" "parse_month ''2026-03'' = Inr (ym 2026 3)"
    by code_simp+
  have l: "months_from_to 2026 1 2026 3 = [ym 2026 1, ym 2026 2, ym 2026 3]"
    by (simp add: months_from_to_def month_index_def month_start_def ym_def)
  have less: "dt_less (ym 2026 1) (ym 2026 3)"
    by (simp add: dt_less_def dt_key_def ym_def)
  have y: "(2026::nat) \<le> MAXYEAR" by (simp add: MAXYEAR_def)
  have n: "\<not> ((2026::nat) = MAXYEAR \<and> (3::nat) = 12)" by simp
  have h: "(1::nat) \<le> 1" "(1::nat) \<le> 12" "(1::nat) \<le> 3" "(3::nat) \<le> 12" by simp_all
  note up = C7_month_range [OF h(1) h(2) h(3) h(4) y, of 2026]
  note down = C7_month_range [OF h(3) h(4) h(1) h(2) y, of 2026]
  from up have "fst (month_range (ym 2026 1) (ym 2026 3)) = months_from_to 2026 1 2026 3"
    by blast
  moreover from up n have "snd (month_range (ym 2026 1) (ym 2026 3)) = None"
    by blast
  ultimately have a: "month_range (ym 2026 1) (ym 2026 3) = ([ym 2026 1, ym 2026 2, ym 2026 3], None)"
    unfolding l by (simp add: prod_eq_iff)
  from down less have b: "month_range (ym 2026 3) (ym 2026 1) = ([], None)"
    by blast
  from p a b show ?thesis by blast
qed

subsection \<open>The year-month values \<open>parse_month\<close> produces\<close>

text \<open>
  Every value of \<open>parse_month\<close> is the first instant of a month of a year
  between 1 and \<open>MAXYEAR\<close>: the values the theorem on \<open>month_range\<close> is
  about.
\<close>


lemma digit_val_le: "is_digit c \<Longrightarrow> digit_val c \<le> 9"
  unfolding is_digit_def digit_val_def by linarith

lemma parse_m_range: "parse_m ms = Some m \<Longrightarrow> 1 \<le> m \<and> m \<le> 12"
  by (induction ms rule: parse_m.induct) (auto split: if_splits dest: digit_val_le)

lemma parse_month_ym:
  assumes "parse_month s = Inr d"
  shows "\<exists>y m. d = ym y m \<and> 1 \<le> y \<and> y \<le> MAXYEAR \<and> 1 \<le> m \<and> m \<le> 12"
proof (cases s rule: parse_month.cases)
  case (1 a b c d' e ms)
  let ?y = "1000 * digit_val a + 100 * digit_val b + 10 * digit_val c + digit_val d'"
  from assms 1 have dg: "is_digit a" "is_digit b" "is_digit c" "is_digit d'"
    by (auto split: if_splits)
  from assms 1 dg obtain m where m: "parse_m ms = Some m"
    by (cases "parse_m ms") (auto split: if_splits)
  from assms 1 dg m have y: "1 \<le> ?y" and d: "d = ym ?y m"
    by (auto simp: Let_def ValueError_def split: if_splits)
  from dg have "?y \<le> MAXYEAR"
    using digit_val_le [of a] digit_val_le [of b] digit_val_le [of c] digit_val_le [of d']
    by (simp add: MAXYEAR_def)
  with y d parse_m_range [OF m] show ?thesis by blast
qed (use assms in simp_all)

end
